theory Spec2Isabelle
  imports Main "HOL-Library.Multiset"
begin

section \<open>JavaScript values used by the price-list browser\<close>

text \<open>
  File and folder names and the search term are arbitrary text: they are lists of UTF-16
  code units (\<open>jsstring\<close>), and \<open>units\<close> reads an ASCII literal as such a list.
  Identifiers, MIME types, sizes and addresses are ASCII and are modelled as \<open>string\<close>.
  A JavaScript number is either \<open>NaN\<close> or an integer: the only numbers the program
  computes with are results of \<open>parseInt\<close> and time values of \<open>Date\<close>. Integers are
  exact in the model; the rounding of doubles beyond \<open>2^53\<close> is outside it.
\<close>

datatype jsnum = NaN | Num int

type_synonym jsstring = "nat list"

definition units :: "string \<Rightarrow> jsstring" where
  "units s = map of_char s"

definition isWhiteSpace :: "char \<Rightarrow> bool" where
  "isWhiteSpace c = (c \<in> set [CHR 0x09, CHR 0x0A, CHR 0x0B, CHR 0x0C, CHR 0x0D, CHR '' ''])"

fun indexOf :: "char \<Rightarrow> string \<Rightarrow> nat option" where
  "indexOf c [] = None"
| "indexOf c (d # ds) = (if c = d then Some 0 else map_option Suc (indexOf c ds))"

text \<open>
  \<open>String.prototype.toLowerCase\<close> is the Unicode default lower-case mapping. For the
  code units up to U+017F (Basic Latin, Latin-1 Supplement, Latin Extended-A) it works unit
  by unit and is written out in \<open>lowerUnit\<close>: the capitals \<open>A\<close>..\<open>Z\<close> and
  U+00C0..U+00DE (but not the sign U+00D7) move up by 32, the capitals of Latin
  Extended-A move to the next code unit, U+0178 goes to U+00FF, and the dotted capital I
  (U+0130) becomes the two units \<open>i\<close>, U+0307. A string with any later code unit is
  handed to \<open>platformLower\<close>, the platform's mapping for the rest of Unicode, which
  is a parameter.
\<close>

definition lowerUnit :: "nat \<Rightarrow> jsstring" where
  "lowerUnit u =
     (if 0x41 \<le> u \<and> u \<le> 0x5A then [u + 0x20]
      else if 0xC0 \<le> u \<and> u \<le> 0xDE \<and> u \<noteq> 0xD7 then [u + 0x20]
      else if u = 0x130 then [0x69, 0x307]
      else if u = 0x178 then [0xFF]
      else if (0x100 \<le> u \<and> u \<le> 0x137 \<or> 0x14A \<le> u \<and> u \<le> 0x177) \<and> even u then [u + 1]
      else if (0x139 \<le> u \<and> u \<le> 0x148 \<or> 0x179 \<le> u \<and> u \<le> 0x17E) \<and> odd u then [u + 1]
      else [u])"

definition toLowerCase :: "(jsstring \<Rightarrow> jsstring) \<Rightarrow> jsstring \<Rightarrow> jsstring" where
  "toLowerCase platformLower s =
     (if list_all (\<lambda>u. u \<le> 0x17F) s then concat (map lowerUnit s) else platformLower s)"

text \<open>The value of a digit or letter as a digit of \<open>parseInt\<close>, in either case.\<close>

definition digitVal :: "char \<Rightarrow> nat option" where
  "digitVal c =
     (case indexOf c ''0123456789abcdefghijklmnopqrstuvwxyz'' of
        Some d \<Rightarrow> Some d
      | None \<Rightarrow> map_option (\<lambda>i. i + 10) (indexOf c ''ABCDEFGHIJKLMNOPQRSTUVWXYZ''))"

definition radixDigit :: "nat \<Rightarrow> char \<Rightarrow> nat option" where
  "radixDigit R c =
     (case digitVal c of None \<Rightarrow> None | Some d \<Rightarrow> if d < R then Some d else None)"

fun digitsValue :: "nat \<Rightarrow> nat \<Rightarrow> string \<Rightarrow> nat" where
  "digitsValue R acc [] = acc"
| "digitsValue R acc (c # cs) =
     (case radixDigit R c of None \<Rightarrow> acc | Some d \<Rightarrow> digitsValue R (acc * R + d) cs)"

text \<open>
  \<open>parseInt(s)\<close> with no radix argument: leading white space is skipped, one sign is
  read, a \<open>0x\<close>/\<open>0X\<close> prefix selects radix 16, and the longest prefix of digits is the
  value; with no digit at all the result is \<open>NaN\<close>. It never throws.
\<close>

definition stripSign :: "string \<Rightarrow> int \<times> string" where
  "stripSign s =
     (case s of
        [] \<Rightarrow> (1, s)
      | c # r \<Rightarrow> if c = CHR ''-'' then (- 1, r) else if c = CHR ''+'' then (1, r) else (1, s))"

definition stripPrefix :: "string \<Rightarrow> nat \<times> string" where
  "stripPrefix s =
     (case s of
        c # x # r \<Rightarrow>
          if c = CHR ''0'' \<and> (x = CHR ''x'' \<or> x = CHR ''X'') then (16, r) else (10, s)
      | _ \<Rightarrow> (10, s))"

definition parseInt :: "string \<Rightarrow> jsnum" where
  "parseInt s =
     (let (sign, s2) = stripSign (dropWhile isWhiteSpace s);
          (R, s3) = stripPrefix s2
      in case s3 of
           [] \<Rightarrow> NaN
         | c # _ \<Rightarrow>
             (case radixDigit R c of
                None \<Rightarrow> NaN
              | Some _ \<Rightarrow> Num (sign * int (digitsValue R 0 s3))))"

definition digitChar :: "nat \<Rightarrow> char" where
  "digitChar d = ''0123456789'' ! (d mod 10)"

fun showNat :: "nat \<Rightarrow> string" where
  "showNat n = (if n < 10 then [digitChar n] else showNat (n div 10) @ [digitChar (n mod 10)])"

declare showNat.simps [simp del]

fun startsWith :: "'a list \<Rightarrow> 'a list \<Rightarrow> bool" where
  "startsWith s [] = True"
| "startsWith [] (c # t) = False"
| "startsWith (d # s) (c # t) = (d = c \<and> startsWith s t)"

text \<open>\<open>s.includes(t)\<close>: \<open>t\<close> occurs in \<open>s\<close> at some position.\<close>

fun includesStr :: "'a list \<Rightarrow> 'a list \<Rightarrow> bool" where
  "includesStr [] t = (t = [])"
| "includesStr (c # s) t = (startsWith (c # s) t \<or> includesStr s t)"

section \<open>The size formatter\<close>

text \<open>
  \<open>formatFileSize\<close> of the component. \<open>Math.floor(Math.log(bytes) / Math.log(k))\<close> is
  the integer logarithm to base 1024 (\<open>ilog1024\<close>). Dividing by a power of 1024 is exact
  in binary floating point, so \<open>toFixed(2)\<close> rounds the exact quotient to hundredths,
  halves upwards (\<open>toFixed2\<close> returns the number of hundredths). \<open>parseFloat\<close> reads the
  two-decimal string back as a number, and appending it to a string prints the shortest
  decimal: trailing zeros of the fraction are dropped (\<open>showHundredths\<close>).
  \<open>sizes[i]\<close> beyond the array is \<open>undefined\<close>, which concatenation prints as such;
  a negative or \<open>NaN\<close> argument makes every intermediate value \<open>NaN\<close>.
\<close>

fun ilog1024 :: "nat \<Rightarrow> nat" where
  "ilog1024 n = (if n < 1024 then 0 else Suc (ilog1024 (n div 1024)))"

declare ilog1024.simps [simp del]

definition toFixed2 :: "nat \<Rightarrow> nat \<Rightarrow> nat" where
  "toFixed2 bytes i = (200 * bytes + 1024 ^ i) div (2 * 1024 ^ i)"

definition fixedString :: "nat \<Rightarrow> string" where
  "fixedString h =
     showNat (h div 100) @ ''.'' @ [digitChar (h mod 100 div 10), digitChar (h mod 10)]"

definition showHundredths :: "nat \<Rightarrow> string" where
  "showHundredths h =
     (if h mod 100 = 0 then showNat (h div 100)
      else if h mod 10 = 0 then showNat (h div 100) @ ''.'' @ [digitChar (h mod 100 div 10)]
      else fixedString h)"

definition sizes :: "string list" where
  "sizes = [''Bytes'', ''KB'', ''MB'', ''GB'']"

definition sizesAt :: "nat \<Rightarrow> string" where
  "sizesAt i = (if i < length sizes then sizes ! i else ''undefined'')"

definition formatFileSize :: "jsnum \<Rightarrow> string" where
  "formatFileSize bytes =
     (case bytes of
        NaN \<Rightarrow> ''NaN undefined''
      | Num b \<Rightarrow>
          if b = 0 then ''0 Bytes''
          else if b < 0 then ''NaN undefined''
          else (let i = ilog1024 (nat b)
                in showHundredths (toFixed2 (nat b) i) @ '' '' @ sizesAt i))"

section \<open>The listing service (\<open>services/googleDriveService.ts\<close>)\<close>

record DriveFile =
  df_id :: string
  df_name :: jsstring
  df_mimeType :: string
  df_size :: "string option"
  df_modifiedTime :: string
  df_webViewLink :: string
  df_webContentLink :: string
  df_thumbnailLink :: "string option"

definition FOLDER_ID :: string where
  "FOLDER_ID = ''1T_ahaYDTMRof2SZgzJPaV0BiRQQRpi2f''"

definition FIELDS :: string where
  "FIELDS = ''files(id,name,mimeType,size,modifiedTime,webViewLink,webContentLink,thumbnailLink)''"

text \<open>
  The listing request for the children of a folder, as the endpoint reads it. The API key
  is the service instance's \<open>apiKey\<close> field and is a parameter here.
\<close>

definition childrenUrl :: "string \<Rightarrow> string \<Rightarrow> string" where
  "childrenUrl folderId apiKey =
     ''https://www.googleapis.com/drive/v3/files?q='' @ [CHR 0x27] @ folderId @ [CHR 0x27]
       @ ''+in+parents&key='' @ apiKey @ ''&fields='' @ FIELDS"

text \<open>
  What \<open>fetch\<close> and \<open>response.json()\<close> deliver: the promise is rejected, or there is a
  response with a status and a body; the body is the \<open>files\<close> array of the parsed
  JSON, or \<open>None\<close> when the text does not parse or has no such array.
\<close>

datatype fetch_result = Rejected | Response nat "DriveFile list option"

datatype error = TransportError | HttpError nat | BodyError | TypeError

definition response_ok :: "nat \<Rightarrow> bool" where
  "response_ok status = (200 \<le> status \<and> status \<le> 299)"

definition supportedFile :: "DriveFile \<Rightarrow> bool" where
  "supportedFile file =
     (df_mimeType file = ''application/pdf'' \<or>
      df_mimeType file = ''application/vnd.openxmlformats-officedocument.spreadsheetml.sheet'' \<or>
      df_mimeType file = ''application/vnd.ms-excel'' \<or>
      df_mimeType file = ''application/vnd.google-apps.folder'')"

text \<open>
  \<open>getFilesFromFolder()\<close> is declared without a parameter: the request always names
  \<open>FOLDER_ID\<close>. Every failure is logged and thrown again.
\<close>

definition getFilesFromFolder :: "string \<Rightarrow> (string \<Rightarrow> fetch_result) \<Rightarrow> error + DriveFile list" where
  "getFilesFromFolder apiKey fetch =
     (case fetch (childrenUrl FOLDER_ID apiKey) of
        Rejected \<Rightarrow> Inl TransportError
      | Response status body \<Rightarrow>
          if \<not> response_ok status then Inl (HttpError status)
          else (case body of
                  None \<Rightarrow> Inl BodyError
                | Some files \<Rightarrow> Inr (filter supportedFile files)))"

definition getFileViewUrl :: "string \<Rightarrow> string \<Rightarrow> string" where
  "getFileViewUrl fileId mimeType =
     (if mimeType = ''application/vnd.google-apps.folder''
        then ''https://drive.google.com/drive/folders/'' @ fileId
      else if mimeType = ''application/pdf''
        then ''https://drive.google.com/file/d/'' @ fileId @ ''/preview''
      else ''https://docs.google.com/spreadsheets/d/'' @ fileId @ ''/edit?usp=sharing'')"

definition getFileDownloadUrl :: "string \<Rightarrow> string" where
  "getFileDownloadUrl fileId = ''https://drive.google.com/uc?export=download&id='' @ fileId"

section \<open>The component (\<open>components/GoogleDrivePriceListManager.tsx\<close>)\<close>

datatype file_type = pdf | excel | folder

record PriceListFile =
  pf_id :: string
  pf_name :: jsstring
  pf_type :: file_type
  pf_size :: string
  pf_modifiedTime :: jsnum
  pf_viewUrl :: string
  pf_downloadUrl :: string
  pf_isFolder :: bool

record BreadcrumbItem =
  bc_id :: string
  bc_name :: jsstring

datatype SortOption = name_asc | name_desc | date_asc | date_desc

subsection \<open>Normalisation of one raw record\<close>

text \<open>
  The body of the \<open>map\<close> callback in \<open>loadFiles\<close>. \<open>dateParse\<close> is the time value of
  \<open>new Date(s)\<close> (\<open>NaN\<close> for an invalid date), left as a parameter. \<open>file.size ? ...\<close>
  takes the first branch when the size is present and not the empty string (\<open>truthy\<close>
  returns the string in that case).
\<close>

definition truthy :: "string option \<Rightarrow> string option" where
  "truthy s = (case s of None \<Rightarrow> None | Some t \<Rightarrow> if t = [] then None else Some t)"

definition processFile :: "(string \<Rightarrow> jsnum) \<Rightarrow> DriveFile \<Rightarrow> PriceListFile" where
  "processFile dateParse file =
     (let isFolder = (df_mimeType file = ''application/vnd.google-apps.folder'');
          fileType = (if \<not> isFolder
                      then (if df_mimeType file = ''application/pdf'' then pdf else excel)
                      else folder)
      in \<lparr> pf_id = df_id file,
           pf_name = df_name file,
           pf_type = fileType,
           pf_size = (case truthy (df_size file) of
                        Some sz \<Rightarrow> formatFileSize (parseInt sz)
                      | None \<Rightarrow> if isFolder then ''-'' else ''Bilinmiyor''),
           pf_modifiedTime = dateParse (df_modifiedTime file),
           pf_viewUrl = getFileViewUrl (df_id file) (df_mimeType file),
           pf_downloadUrl = getFileDownloadUrl (df_id file),
           pf_isFolder = isFolder \<rparr>)"

text \<open>
  \<open>loadFiles(folderId)\<close>: the component hands \<open>folderId\<close> to \<open>getFilesFromFolder\<close>,
  whose declaration takes no argument, so the value is dropped at the call. The result is
  the new \<open>files\<close> state, or the error that the \<open>catch\<close> block reports.
\<close>

definition loadFiles ::
  "string \<Rightarrow> (string \<Rightarrow> fetch_result) \<Rightarrow> (string \<Rightarrow> jsnum) \<Rightarrow> string option
     \<Rightarrow> error + PriceListFile list" where
  "loadFiles apiKey fetch dateParse folderId =
     (case getFilesFromFolder apiKey fetch of
        Inl e \<Rightarrow> Inl e
      | Inr driveFiles \<Rightarrow> Inr (map (processFile dateParse) driveFiles))"

subsection \<open>Navigation state\<close>

record NavState =
  currentFolderId :: string
  breadcrumbs :: "BreadcrumbItem list"

definition initialNav :: NavState where
  "initialNav = \<lparr> currentFolderId = [], breadcrumbs = [] \<rparr>"

definition navigateToFolder :: "string \<Rightarrow> jsstring \<Rightarrow> NavState \<Rightarrow> NavState" where
  "navigateToFolder folderId folderName s =
     (if folderId = []
      then \<lparr> currentFolderId = folderId, breadcrumbs = [] \<rparr>
      else \<lparr> currentFolderId = folderId,
             breadcrumbs = breadcrumbs s @ [\<lparr> bc_id = folderId, bc_name = folderName \<rparr>] \<rparr>)"

text \<open>
  \<open>navigateToBreadcrumb(index)\<close>. Reading \<open>breadcrumbs[index]\<close> outside the array
  gives \<open>undefined\<close>, and \<open>targetBreadcrumb.id\<close> then throws a \<open>TypeError\<close> before
  either setter has run. The result is the exception, if any, and the state the component
  is left in.
\<close>

definition navigateToBreadcrumb :: "int \<Rightarrow> NavState \<Rightarrow> error option \<times> NavState" where
  "navigateToBreadcrumb index s =
     (if index = - 1
      then (None, \<lparr> currentFolderId = [], breadcrumbs = [] \<rparr>)
      else if 0 \<le> index \<and> index < int (length (breadcrumbs s))
      then (None, \<lparr> currentFolderId = bc_id (breadcrumbs s ! nat index),
                     breadcrumbs = take (nat index + 1) (breadcrumbs s) \<rparr>)
      else (Some TypeError, s))"

datatype nav_action = Descend string jsstring | Jump int

fun navStep :: "NavState \<Rightarrow> nav_action \<Rightarrow> NavState" where
  "navStep s (Descend folderId folderName) = navigateToFolder folderId folderName s"
| "navStep s (Jump index) = snd (navigateToBreadcrumb index s)"

definition navRun :: "nav_action list \<Rightarrow> NavState" where
  "navRun acts = foldl navStep initialNav acts"

subsection \<open>Sorting and filtering\<close>

text \<open>
  \<open>Array.prototype.sort\<close> is a stable sort; a comparator result that is \<open>NaN\<close> counts
  as \<open>0\<close>. For a consistent comparator the language fixes the result: the sorted
  arrangement that keeps equal elements in their input order. For any other comparator the
  order is left to the engine. The model is the stable insertion sort (an element goes
  before the first later element it does not compare greater than): it is the sort for
  consistent comparators and one admissible engine otherwise, so what is said about the
  exact order of the result is said for consistent comparators only.
\<close>

definition sortValue :: "jsnum \<Rightarrow> int" where
  "sortValue v = (case v of NaN \<Rightarrow> 0 | Num n \<Rightarrow> n)"

fun insertSorted :: "('a \<Rightarrow> 'a \<Rightarrow> jsnum) \<Rightarrow> 'a \<Rightarrow> 'a list \<Rightarrow> 'a list" where
  "insertSorted cmp x [] = [x]"
| "insertSorted cmp x (y # ys) =
     (if sortValue (cmp x y) \<le> 0 then x # y # ys else y # insertSorted cmp x ys)"

fun arraySort :: "('a \<Rightarrow> 'a \<Rightarrow> jsnum) \<Rightarrow> 'a list \<Rightarrow> 'a list" where
  "arraySort cmp [] = []"
| "arraySort cmp (x # xs) = insertSorted cmp x (arraySort cmp xs)"

definition jsSub :: "jsnum \<Rightarrow> jsnum \<Rightarrow> jsnum" where
  "jsSub a b = (case (a, b) of (Num x, Num y) \<Rightarrow> Num (x - y) | _ \<Rightarrow> NaN)"

text \<open>
  The comparator of \<open>sortFiles\<close>. \<open>localeCompare\<close> is
  \<open>a.localeCompare(b, 'tr')\<close>, the platform's Turkish collation, left as a parameter.
\<close>

definition compareFiles ::
  "(jsstring \<Rightarrow> jsstring \<Rightarrow> int) \<Rightarrow> SortOption \<Rightarrow> PriceListFile \<Rightarrow> PriceListFile \<Rightarrow> jsnum" where
  "compareFiles localeCompare sortOption a b =
     (if pf_isFolder a \<and> \<not> pf_isFolder b then Num (- 1)
      else if \<not> pf_isFolder a \<and> pf_isFolder b then Num 1
      else (case sortOption of
              name_asc \<Rightarrow> Num (localeCompare (pf_name a) (pf_name b))
            | name_desc \<Rightarrow> Num (localeCompare (pf_name b) (pf_name a))
            | date_asc \<Rightarrow> jsSub (pf_modifiedTime a) (pf_modifiedTime b)
            | date_desc \<Rightarrow> jsSub (pf_modifiedTime b) (pf_modifiedTime a)))"

definition sortFiles ::
  "(jsstring \<Rightarrow> jsstring \<Rightarrow> int) \<Rightarrow> PriceListFile list \<Rightarrow> SortOption \<Rightarrow> PriceListFile list" where
  "sortFiles localeCompare files sortOption =
     arraySort (compareFiles localeCompare sortOption) files"

definition matchesSearch :: "(jsstring \<Rightarrow> jsstring) \<Rightarrow> jsstring \<Rightarrow> PriceListFile \<Rightarrow> bool" where
  "matchesSearch platformLower searchTerm file =
     includesStr (toLowerCase platformLower (pf_name file))
       (toLowerCase platformLower searchTerm)"

definition filteredAndSortedFiles ::
  "(jsstring \<Rightarrow> jsstring) \<Rightarrow> (jsstring \<Rightarrow> jsstring \<Rightarrow> int) \<Rightarrow> PriceListFile list
     \<Rightarrow> jsstring \<Rightarrow> SortOption \<Rightarrow> PriceListFile list" where
  "filteredAndSortedFiles platformLower localeCompare files searchTerm sortOption =
     sortFiles localeCompare (filter (matchesSearch platformLower searchTerm) files) sortOption"

section \<open>Properties named by the specification\<close>

text \<open>
  The navigation invariant in the specification's words: the trail is empty exactly when
  the root is open, and otherwise its last entry is the open folder.
\<close>

definition navInvariant :: "NavState \<Rightarrow> bool" where
  "navInvariant s =
     ((breadcrumbs s = [] \<longleftrightarrow> currentFolderId s = []) \<and>
      (breadcrumbs s \<noteq> [] \<longrightarrow> bc_id (last (breadcrumbs s)) = currentFolderId s))"

text \<open>Every entry of the trail names a folder other than the root.\<close>

definition crumbsNamed :: "NavState \<Rightarrow> bool" where
  "crumbsNamed s = list_all (\<lambda>b. bc_id b \<noteq> []) (breadcrumbs s)"






text \<open>
  A consistent comparator for the elements of an array, as the language defines it: it
  never returns \<open>NaN\<close>, every element compares equal to itself, the two orders of a
  pair agree, and the order is transitive.
\<close>

definition consistentComparator :: "('a \<Rightarrow> 'a \<Rightarrow> jsnum) \<Rightarrow> 'a list \<Rightarrow> bool" where
  "consistentComparator cmp xs =
     (\<forall>a\<in>set xs. \<forall>b\<in>set xs. \<forall>c\<in>set xs.
        cmp a b \<noteq> NaN \<and>
        sortValue (cmp a a) = 0 \<and>
        (sortValue (cmp a b) < 0 \<longleftrightarrow> 0 < sortValue (cmp b a)) \<and>
        (sortValue (cmp a b) \<le> 0 \<and> sortValue (cmp b c) \<le> 0 \<longrightarrow> sortValue (cmp a c) \<le> 0))"

text \<open>One modification time is valid and not later than another.\<close>

definition timeLE :: "jsnum \<Rightarrow> jsnum \<Rightarrow> bool" where
  "timeLE a b = (case (a, b) of (Num s, Num t) \<Rightarrow> s \<le> t | _ \<Rightarrow> False)"

text \<open>
  Two entries have the same key under a sort option when they agree on the folder flag and
  on the field the option sorts by.
\<close>

definition sameKey :: "SortOption \<Rightarrow> PriceListFile \<Rightarrow> PriceListFile \<Rightarrow> bool" where
  "sameKey sortOption a b =
     (pf_isFolder a = pf_isFolder b \<and>
      (case sortOption of
         name_asc \<Rightarrow> pf_name a = pf_name b
       | name_desc \<Rightarrow> pf_name a = pf_name b
       | date_asc \<Rightarrow> pf_modifiedTime a = pf_modifiedTime b
       | date_desc \<Rightarrow> pf_modifiedTime a = pf_modifiedTime b))"

section \<open>Sample data\<close>

text \<open>
  Concrete values of the parameters and a small remote drive, used to evaluate the
  functions: an ordering of strings by code unit in place of the collation, a platform
  lower-casing that changes nothing (the sample names stay below U+0180, where it is not
  asked), a date parser that rejects everything, and a root folder holding a subfolder and
  an image while the subfolder holds one document.
\<close>

fun codeUnitCompare :: "jsstring \<Rightarrow> jsstring \<Rightarrow> int" where
  "codeUnitCompare [] [] = 0"
| "codeUnitCompare [] (d # t) = - 1"
| "codeUnitCompare (c # s) [] = 1"
| "codeUnitCompare (c # s) (d # t) =
     (if c = d then codeUnitCompare s t else if c < d then - 1 else 1)"

definition noPlatformLower :: "jsstring \<Rightarrow> jsstring" where
  "noPlatformLower s = s"

definition namedEntry :: "jsstring \<Rightarrow> PriceListFile" where
  "namedEntry name =
     \<lparr> pf_id = ''id'', pf_name = name, pf_type = pdf, pf_size = ''1 KB'',
       pf_modifiedTime = Num 0, pf_viewUrl = getFileViewUrl ''id'' ''application/pdf'',
       pf_downloadUrl = getFileDownloadUrl ''id'', pf_isFolder = False \<rparr>"

definition noDate :: "string \<Rightarrow> jsnum" where
  "noDate s = NaN"

definition sampleEntry :: "string \<Rightarrow> bool \<Rightarrow> int \<Rightarrow> PriceListFile" where
  "sampleEntry name isFolder time =
     \<lparr> pf_id = name, pf_name = units name, pf_type = (if isFolder then folder else pdf),
       pf_size = ''-'', pf_modifiedTime = Num time,
       pf_viewUrl = getFileViewUrl name [], pf_downloadUrl = getFileDownloadUrl name,
       pf_isFolder = isFolder \<rparr>"

definition demoKey :: string where
  "demoKey = ''KEY''"

definition rawRecord :: "string \<Rightarrow> string \<Rightarrow> string \<Rightarrow> string option \<Rightarrow> DriveFile" where
  "rawRecord fileId name mimeType sz =
     \<lparr> df_id = fileId, df_name = units name, df_mimeType = mimeType, df_size = sz,
       df_modifiedTime = ''2024-01-01T00:00:00.000Z'', df_webViewLink = [],
       df_webContentLink = [], df_thumbnailLink = None \<rparr>"

definition rootFolder :: DriveFile where
  "rootFolder = rawRecord ''sub1'' ''Archive'' ''application/vnd.google-apps.folder'' None"

definition rootImage :: DriveFile where
  "rootImage = rawRecord ''img1'' ''logo.png'' ''image/png'' (Some ''512'')"

definition subDocument :: DriveFile where
  "subDocument = rawRecord ''doc1'' ''prices.pdf'' ''application/pdf'' (Some ''1536'')"

definition sizedFolder :: DriveFile where
  "sizedFolder = rawRecord ''sub2'' ''Old'' ''application/vnd.google-apps.folder'' (Some ''2048'')"

definition demoFetch :: "string \<Rightarrow> fetch_result" where
  "demoFetch url =
     (if url = childrenUrl FOLDER_ID demoKey then Response 200 (Some [rootFolder, rootImage])
      else if url = childrenUrl ''sub1'' demoKey then Response 200 (Some [subDocument])
      else Response 404 None)"

section \<open>Evaluation rules\<close>

lemmas fmt = formatFileSize_def ilog1024.simps toFixed2_def showHundredths_def fixedString_def
  showNat.simps digitChar_def sizesAt_def sizes_def

lemmas pint = parseInt_def stripSign_def stripPrefix_def radixDigit_def digitVal_def
  isWhiteSpace_def

lemma demoFetch_root:
  "demoFetch (childrenUrl FOLDER_ID demoKey) = Response 200 (Some [rootFolder, rootImage])"
  by (simp add: demoFetch_def)

lemma demo_listing: "getFilesFromFolder demoKey demoFetch = Inr [rootFolder]"
  by (simp add: getFilesFromFolder_def demoFetch_root response_ok_def supportedFile_def
      rootFolder_def rootImage_def rawRecord_def)

section \<open>The size formatter: results\<close>

lemma ilog1024_bounds:
  "0 < n \<Longrightarrow> 1024 ^ ilog1024 n \<le> n \<and> n < 1024 ^ Suc (ilog1024 n)"
proof (induction n rule: ilog1024.induct)
  case (1 n)
  show ?case
  proof (cases "n < 1024")
    case True
    then show ?thesis using "1.prems" by (simp add: ilog1024.simps)
  next
    case False
    then have pos: "0 < n div 1024" by simp
    have ih: "1024 ^ ilog1024 (n div 1024) \<le> n div 1024 \<and>
        n div 1024 < 1024 ^ Suc (ilog1024 (n div 1024))"
      using "1.IH" [OF False pos] .
    have eq: "ilog1024 n = Suc (ilog1024 (n div 1024))"
      using False by (simp add: ilog1024.simps)
    have lo: "1024 * 1024 ^ ilog1024 (n div 1024) \<le> n"
      using ih by linarith
    have hi: "n < 1024 * 1024 ^ Suc (ilog1024 (n div 1024))"
      using ih by (simp add: div_less_iff_less_mult mult.commute)
    show ?thesis using lo hi by (simp add: eq)
  qed
qed

lemma ilog1024_less:
  assumes "0 < n" and "n < 1024 ^ k"
  shows "ilog1024 n < k"
proof -
  have "(1024::nat) ^ ilog1024 n < 1024 ^ k"
    using ilog1024_bounds [OF assms(1)] assms(2) by linarith
  then show ?thesis by (simp add: power_strict_increasing_iff)
qed

lemma toFixed2_nearest:
  "2 * toFixed2 b i * 1024 ^ i \<le> 200 * b + 1024 ^ i \<and>
   200 * b + 1024 ^ i < 2 * (toFixed2 b i + 1) * 1024 ^ i"
proof -
  define q :: nat where "q = 2 * 1024 ^ i"
  define a :: nat where "a = 200 * b + 1024 ^ i"
  have q: "0 < q" by (simp add: q_def)
  have h: "toFixed2 b i = a div q" by (simp add: toFixed2_def a_def q_def)
  have lo: "a div q * q \<le> a" by simp
  have hi: "a < (a div q + 1) * q"
  proof -
    have m: "a mod q < q" using q by simp
    have d: "a div q * q + a mod q = a" by simp
    have e: "(a div q + 1) * q = a div q * q + q" by simp
    show ?thesis using m d unfolding e by linarith
  qed
  have e1: "2 * toFixed2 b i * 1024 ^ i = a div q * q"
    unfolding h by (simp add: q_def)
  have e2: "2 * (toFixed2 b i + 1) * 1024 ^ i = (a div q + 1) * q"
    unfolding h by (simp add: q_def)
  have "2 * toFixed2 b i * 1024 ^ i \<le> a \<and> a < 2 * (toFixed2 b i + 1) * 1024 ^ i"
    unfolding e1 e2 using lo hi by blast
  then show ?thesis unfolding a_def .
qed

text \<open>
  C3, as the code has it. For a positive byte count below \<open>1024^4\<close> the result is the
  count divided by the largest power of 1024 not above it, rounded to the nearest hundredth
  (halves upwards) and printed without trailing zeros of the fraction, then a space and
  the unit \<open>Bytes\<close>, \<open>KB\<close>, \<open>MB\<close> or \<open>GB\<close> of that power. In particular
  0 gives \<open>0 Bytes\<close>, 1024 gives \<open>1 KB\<close>, 1536 gives \<open>1.5 KB\<close> and 1048576
  gives \<open>1 MB\<close>.
\<close>

theorem formatFileSize_scaled:
  "(0 < b \<and> b < 1024 ^ 4 \<longrightarrow>
      (\<exists>i h. i < 4 \<and> 1024 ^ i \<le> b \<and> b < 1024 ^ (i + 1) \<and>
         2 * h * 1024 ^ i \<le> 200 * b + 1024 ^ i \<and>
         200 * b + 1024 ^ i < 2 * (h + 1) * 1024 ^ i \<and>
         formatFileSize (Num (int b)) = showHundredths h @ '' '' @ sizes ! i)) \<and>
   formatFileSize (Num 0) = ''0 Bytes'' \<and>
   formatFileSize (Num 1024) = ''1 KB'' \<and>
   formatFileSize (Num 1536) = ''1.5 KB'' \<and>
   formatFileSize (Num 1048576) = ''1 MB''"
proof -
  have gen: "\<exists>i h. i < 4 \<and> 1024 ^ i \<le> b \<and> b < 1024 ^ (i + 1) \<and>
         2 * h * 1024 ^ i \<le> 200 * b + 1024 ^ i \<and>
         200 * b + 1024 ^ i < 2 * (h + 1) * 1024 ^ i \<and>
         formatFileSize (Num (int b)) = showHundredths h @ '' '' @ sizes ! i"
    if pos: "0 < b" and small: "b < 1024 ^ 4"
  proof -
    define i where "i = ilog1024 b"
    define h where "h = toFixed2 b i"
    have i4: "i < 4" unfolding i_def using pos small by (rule ilog1024_less)
    have bnd: "1024 ^ i \<le> b \<and> b < 1024 ^ (i + 1)"
      using ilog1024_bounds [OF pos] by (simp add: i_def)
    have rnd: "2 * h * 1024 ^ i \<le> 200 * b + 1024 ^ i \<and>
        200 * b + 1024 ^ i < 2 * (h + 1) * 1024 ^ i"
      unfolding h_def by (rule toFixed2_nearest)
    have unit: "sizesAt i = sizes ! i" using i4 by (simp add: sizesAt_def sizes_def)
    have "formatFileSize (Num (int b)) = showHundredths h @ '' '' @ sizes ! i"
      using pos unit by (simp add: formatFileSize_def Let_def i_def h_def)
    then show ?thesis using i4 bnd rnd by blast
  qed
  have v0: "formatFileSize (Num 0) = ''0 Bytes''" by (simp add: formatFileSize_def)
  have v1: "formatFileSize (Num 1024) = ''1 KB''" by (simp add: fmt)
  have v2: "formatFileSize (Num 1536) = ''1.5 KB''" by (simp add: fmt)
  have v3: "formatFileSize (Num 1048576) = ''1 MB''" by (simp add: fmt)
  show ?thesis using gen v0 v1 v2 v3 by blast
qed

theorem formatFileSize_scaled_witness:
  "(0::nat) < 1234567 \<and> (1234567::nat) < 1024 ^ 4 \<and>
   (\<exists>i h. i < 4 \<and> 1024 ^ i \<le> (1234567::nat) \<and> (1234567::nat) < 1024 ^ (i + 1) \<and>
         2 * h * 1024 ^ i \<le> 200 * 1234567 + 1024 ^ i \<and>
         200 * 1234567 + 1024 ^ i < 2 * (h + 1) * 1024 ^ i \<and>
         formatFileSize (Num 1234567) = showHundredths h @ '' '' @ sizes ! i) \<and>
   formatFileSize (Num 1234567) = ''1.18 MB''"
proof -
  have v: "formatFileSize (Num 1234567) = ''1.18 MB''" by (simp add: fmt)
  show ?thesis using formatFileSize_scaled [of 1234567] v by simp
qed

text \<open>
  C3 as stated fails: 1024 bytes are not rendered with two decimals.
\<close>

theorem formatFileSize_drops_trailing_zeros:
  "formatFileSize (Num 1024) \<noteq> ''1.00 KB''"
  by (simp add: fmt)

section \<open>The listing service and normalisation: results\<close>

text \<open>
  C9. When the request succeeds, the listing is the returned records whose MIME type is
  PDF, one of the two spreadsheet types or the folder marker, in their original order;
  every other record is left out.
\<close>

theorem listing_keeps_supported_kinds:
  assumes "fetch (childrenUrl FOLDER_ID apiKey) = Response status (Some files)"
    and "response_ok status"
  shows "getFilesFromFolder apiKey fetch =
     Inr (filter (\<lambda>f. df_mimeType f \<in>
        {''application/pdf'',
         ''application/vnd.openxmlformats-officedocument.spreadsheetml.sheet'',
         ''application/vnd.ms-excel'',
         ''application/vnd.google-apps.folder''}) files)"
proof -
  have "filter supportedFile files = filter (\<lambda>f. df_mimeType f \<in>
        {''application/pdf'',
         ''application/vnd.openxmlformats-officedocument.spreadsheetml.sheet'',
         ''application/vnd.ms-excel'',
         ''application/vnd.google-apps.folder''}) files"
    by (rule filter_cong) (auto simp: supportedFile_def)
  then show ?thesis using assms by (simp add: getFilesFromFolder_def)
qed

theorem listing_keeps_supported_kinds_witness:
  "demoFetch (childrenUrl FOLDER_ID demoKey) = Response 200 (Some [rootFolder, rootImage]) \<and>
   response_ok 200 \<and> getFilesFromFolder demoKey demoFetch = Inr [rootFolder]"
proof -
  have ok: "response_ok 200" by (simp add: response_ok_def)
  show ?thesis
    using listing_keeps_supported_kinds [of demoFetch demoKey 200 "[rootFolder, rootImage]"]
      demoFetch_root ok
    by (simp add: rootFolder_def rootImage_def rawRecord_def)
qed

text \<open>
  C10. Every normalised entry, folders included, carries the forced-download address built
  from the record's identifier; the field is never empty.
\<close>

theorem download_url_always_set:
  "pf_downloadUrl (processFile dateParse file) =
     ''https://drive.google.com/uc?export=download&id='' @ df_id file \<and>
   pf_downloadUrl (processFile dateParse file) \<noteq> []"
  by (simp add: processFile_def getFileDownloadUrl_def Let_def)

text \<open>
  C2 at a subfolder. On the sample drive, loading the folder \<open>sub1\<close> returns the
  root's listing and not the document the subfolder holds: the request is made for
  \<open>FOLDER_ID\<close> whatever identifier the component passes.
\<close>

theorem subfolder_listing_is_root_listing:
  "loadFiles demoKey demoFetch noDate (Some ''sub1'') = Inr [processFile noDate rootFolder] \<and>
   demoFetch (childrenUrl ''sub1'' demoKey) = Response 200 (Some [subDocument]) \<and>
   loadFiles demoKey demoFetch noDate (Some ''sub1'') \<noteq> Inr [processFile noDate subDocument]"
proof -
  have a: "getFilesFromFolder demoKey demoFetch = Inr [rootFolder]"
    by (rule demo_listing)
  have b: "demoFetch (childrenUrl ''sub1'' demoKey) = Response 200 (Some [subDocument])"
    by (simp add: demoFetch_def childrenUrl_def FOLDER_ID_def)
  have c: "pf_id (processFile noDate rootFolder) \<noteq> pf_id (processFile noDate subDocument)"
    by (simp add: processFile_def Let_def rootFolder_def subDocument_def rawRecord_def)
  then have "processFile noDate rootFolder \<noteq> processFile noDate subDocument" by auto
  then show ?thesis using a b by (simp add: loadFiles_def)
qed

text \<open>
  C7, as the code has it. Normalisation has no failing branch: whenever the service
  returns records, \<open>loadFiles\<close> returns one entry for each. A record with an absent or
  empty size renders \<open>-\<close> when it is a folder and \<open>Bilinmiyor\<close> otherwise; a
  record with a size renders the formatted size, whatever its kind, and a size that
  \<open>parseInt\<close> cannot read renders \<open>NaN undefined\<close>.
\<close>

theorem normalisation_sizes:
  "(getFilesFromFolder apiKey fetch = Inr driveFiles \<longrightarrow>
      loadFiles apiKey fetch dateParse folderId = Inr (map (processFile dateParse) driveFiles)) \<and>
   (df_size file = None \<or> df_size file = Some [] \<longrightarrow>
      pf_size (processFile dateParse file) =
        (if df_mimeType file = ''application/vnd.google-apps.folder'' then ''-''
         else ''Bilinmiyor'')) \<and>
   (df_size file = Some sz \<and> sz \<noteq> [] \<longrightarrow>
      pf_size (processFile dateParse file) = formatFileSize (parseInt sz)) \<and>
   (df_size file = Some sz \<and> sz \<noteq> [] \<and> parseInt sz = NaN \<longrightarrow>
      pf_size (processFile dateParse file) = ''NaN undefined'')"
  by (auto simp: loadFiles_def processFile_def Let_def truthy_def formatFileSize_def)

theorem normalisation_sizes_witness:
  "getFilesFromFolder demoKey demoFetch = Inr [rootFolder] \<and>
   loadFiles demoKey demoFetch noDate None = Inr [processFile noDate rootFolder] \<and>
   pf_size (processFile noDate rootFolder) = ''-'' \<and>
   pf_size (processFile noDate (rawRecord ''d2'' ''x.pdf'' ''application/pdf'' None)) = ''Bilinmiyor'' \<and>
   pf_size (processFile noDate subDocument) = ''1.5 KB'' \<and>
   parseInt ''n/a'' = NaN \<and>
   pf_size (processFile noDate (rawRecord ''d3'' ''y.pdf'' ''application/pdf'' (Some ''n/a''))) =
     ''NaN undefined''"
proof -
  have a: "getFilesFromFolder demoKey demoFetch = Inr [rootFolder]"
    by (rule demo_listing)
  have p: "parseInt ''n/a'' = NaN" by (simp add: pint)
  have q: "formatFileSize (parseInt ''1536'') = ''1.5 KB''" by (simp add: pint fmt)
  have r: "formatFileSize NaN = ''NaN undefined''" by (simp add: formatFileSize_def)
  show ?thesis
    using a p q r
      normalisation_sizes [of demoKey demoFetch "[rootFolder]" noDate None rootFolder "[]"]
      normalisation_sizes [of demoKey demoFetch "[rootFolder]" noDate None
        "rawRecord ''d2'' ''x.pdf'' ''application/pdf'' None" "[]"]
      normalisation_sizes [of demoKey demoFetch "[rootFolder]" noDate None subDocument "''1536''"]
      normalisation_sizes [of demoKey demoFetch "[rootFolder]" noDate None
        "rawRecord ''d3'' ''y.pdf'' ''application/pdf'' (Some ''n/a'')" "''n/a''"]
    by (simp add: rootFolder_def subDocument_def rawRecord_def)
qed

text \<open>
  C7 as stated fails for a folder record that carries a size: the size is formatted, the
  placeholder is not used.
\<close>

theorem folder_with_size_is_formatted:
  "df_mimeType sizedFolder = ''application/vnd.google-apps.folder'' \<and>
   pf_isFolder (processFile noDate sizedFolder) \<and>
   pf_size (processFile noDate sizedFolder) = ''2 KB'' \<and>
   pf_size (processFile noDate sizedFolder) \<noteq> ''-''"
  by (simp add: processFile_def Let_def truthy_def sizedFolder_def rawRecord_def pint fmt)

section \<open>Navigation: results\<close>

lemma initialNav_ok: "navInvariant initialNav \<and> crumbsNamed initialNav"
  by (simp add: navInvariant_def crumbsNamed_def initialNav_def)

lemma navigateToFolder_ok:
  assumes "navInvariant s \<and> crumbsNamed s"
  shows "navInvariant (navigateToFolder folderId folderName s) \<and>
         crumbsNamed (navigateToFolder folderId folderName s)"
  using assms by (simp add: navInvariant_def crumbsNamed_def navigateToFolder_def)

lemma last_take_Suc: "n < length xs \<Longrightarrow> last (take (Suc n) xs) = xs ! n"
  by (simp add: take_Suc_conv_app_nth)

lemma navigateToBreadcrumb_ok:
  assumes "navInvariant s \<and> crumbsNamed s"
  shows "navInvariant (snd (navigateToBreadcrumb index s)) \<and>
         crumbsNamed (snd (navigateToBreadcrumb index s))"
proof -
  consider (root) "index = - 1"
    | (inr) "index \<noteq> - 1" "0 \<le> index \<and> index < int (length (breadcrumbs s))"
    | (out) "index \<noteq> - 1" "\<not> (0 \<le> index \<and> index < int (length (breadcrumbs s)))"
    by blast
  then show ?thesis
  proof cases
    case root
    then show ?thesis
      by (simp add: navigateToBreadcrumb_def navInvariant_def crumbsNamed_def)
  next
    case inr
    define n where "n = nat index"
    have n: "n < length (breadcrumbs s)" using inr unfolding n_def by linarith
    have res: "snd (navigateToBreadcrumb index s) =
        \<lparr> currentFolderId = bc_id (breadcrumbs s ! n), breadcrumbs = take (Suc n) (breadcrumbs s) \<rparr>"
      using inr by (simp add: navigateToBreadcrumb_def n_def)
    have named: "list_all (\<lambda>b. bc_id b \<noteq> []) (breadcrumbs s)"
      using assms by (simp add: crumbsNamed_def)
    then have idn: "bc_id (breadcrumbs s ! n) \<noteq> []"
      using n by (simp add: list_all_length)
    have tk: "list_all (\<lambda>b. bc_id b \<noteq> []) (take (Suc n) (breadcrumbs s))"
      using named by (auto simp: list_all_iff dest: in_set_takeD)
    have ne: "take (Suc n) (breadcrumbs s) \<noteq> []" using n by auto
    show ?thesis
      unfolding res navInvariant_def crumbsNamed_def
      using idn tk ne last_take_Suc [OF n] by simp
  next
    case out
    then have "snd (navigateToBreadcrumb index s) = s"
      by (auto simp: navigateToBreadcrumb_def)
    then show ?thesis using assms by simp
  qed
qed

lemma navStep_ok:
  "navInvariant s \<and> crumbsNamed s \<Longrightarrow> navInvariant (navStep s a) \<and> crumbsNamed (navStep s a)"
  by (cases a) (simp_all add: navigateToFolder_ok navigateToBreadcrumb_ok)

lemma foldl_navStep_ok:
  "navInvariant s \<and> crumbsNamed s \<Longrightarrow>
   navInvariant (foldl navStep s acts) \<and> crumbsNamed (foldl navStep s acts)"
proof (induction acts arbitrary: s)
  case Nil
  then show ?case by simp
next
  case (Cons a acts)
  from Cons.prems have "navInvariant (navStep s a) \<and> crumbsNamed (navStep s a)"
    by (rule navStep_ok)
  then show ?case using Cons.IH by simp
qed

lemma navRun_ok: "navInvariant (navRun acts) \<and> crumbsNamed (navRun acts)"
  unfolding navRun_def by (rule foldl_navStep_ok [OF initialNav_ok])

text \<open>
  C6. In every state reached from the initial state by any sequence of transitions the
  invariant holds, and it holds again after a further descend, jump to the root or jump to
  a breadcrumb.
\<close>

theorem navigation_preserves_invariant:
  "navInvariant (navRun acts) \<and>
   navInvariant (navigateToFolder folderId folderName (navRun acts)) \<and>
   navInvariant (snd (navigateToBreadcrumb index (navRun acts)))"
  using navRun_ok [of acts] navigateToFolder_ok [of "navRun acts" folderId folderName]
    navigateToBreadcrumb_ok [of "navRun acts" index]
  by simp

theorem navigation_preserves_invariant_witness:
  "navRun [Descend ''f1'' (units ''Prices''), Descend ''f2'' (units ''2024''), Jump 0] =
     \<lparr> currentFolderId = ''f1'', breadcrumbs = [\<lparr> bc_id = ''f1'', bc_name = units ''Prices'' \<rparr>] \<rparr> \<and>
   navInvariant (navRun [Descend ''f1'' (units ''Prices''), Descend ''f2'' (units ''2024''), Jump 0]) \<and>
   breadcrumbs (navigateToFolder ''f3'' (units ''Old'')
       (navRun [Descend ''f1'' (units ''Prices''), Descend ''f2'' (units ''2024''), Jump 0])) \<noteq> [] \<and>
   bc_id (last (breadcrumbs (navigateToFolder ''f3'' (units ''Old'')
       (navRun [Descend ''f1'' (units ''Prices''), Descend ''f2'' (units ''2024''), Jump 0])))) = ''f3''"
  using navigation_preserves_invariant
    [of "[Descend ''f1'' (units ''Prices''), Descend ''f2'' (units ''2024''), Jump 0]" "''f3''" "units ''Old''" 0]
  by (simp add: navRun_def initialNav_def navigateToFolder_def navigateToBreadcrumb_def
      navInvariant_def)

text \<open>
  C5, as the code has it. For an index that is neither \<open>-1\<close> nor a position of the
  trail, \<open>navigateToBreadcrumb\<close> throws a \<open>TypeError\<close> before any state is
  written: the open folder and the trail are unchanged.
\<close>

theorem out_of_range_jump_throws:
  assumes "index \<noteq> - 1" and "\<not> (0 \<le> index \<and> index < int (length (breadcrumbs s)))"
  shows "navigateToBreadcrumb index s = (Some TypeError, s)"
  using assms by (simp add: navigateToBreadcrumb_def)

theorem out_of_range_jump_throws_witness:
  "(5::int) \<noteq> - 1 \<and> \<not> (0 \<le> (5::int) \<and> (5::int) < int (length (breadcrumbs initialNav))) \<and>
   navigateToBreadcrumb 5 initialNav = (Some TypeError, initialNav)"
  using out_of_range_jump_throws [of 5 initialNav] by (simp add: initialNav_def)

text \<open>
  C5 as stated fails: on the empty trail a jump to index 0 throws.
\<close>

theorem out_of_range_jump_fails:
  "fst (navigateToBreadcrumb 0 initialNav) = Some TypeError"
  by (simp add: navigateToBreadcrumb_def initialNav_def)

section \<open>Sorting and filtering: results\<close>

lemma set_insertSorted: "set (insertSorted cmp x ys) = insert x (set ys)"
  by (induction ys) auto

lemma set_arraySort: "set (arraySort cmp xs) = set xs"
  by (induction xs) (simp_all add: set_insertSorted)

lemma mset_insertSorted: "mset (insertSorted cmp x ys) = add_mset x (mset ys)"
  by (induction ys) auto

lemma mset_arraySort: "mset (arraySort cmp xs) = mset xs"
  by (induction xs) (simp_all add: mset_insertSorted)

lemma consistent_total:
  assumes "consistentComparator cmp zs" and "a \<in> set zs" and "b \<in> set zs"
  shows "sortValue (cmp a b) \<le> 0 \<or> sortValue (cmp b a) \<le> 0"
proof -
  have "sortValue (cmp b a) < 0 \<longleftrightarrow> 0 < sortValue (cmp a b)"
    using assms unfolding consistentComparator_def by blast
  then show ?thesis by linarith
qed

lemma consistent_trans:
  assumes "consistentComparator cmp zs" and "a \<in> set zs" and "b \<in> set zs" and "c \<in> set zs"
    and "sortValue (cmp a b) \<le> 0" and "sortValue (cmp b c) \<le> 0"
  shows "sortValue (cmp a c) \<le> 0"
  using assms unfolding consistentComparator_def by blast

lemma consistent_refl:
  assumes "consistentComparator cmp zs" and "a \<in> set zs"
  shows "sortValue (cmp a a) = 0 \<and> cmp a a \<noteq> NaN"
  using assms unfolding consistentComparator_def by blast

lemma consistent_number:
  assumes "consistentComparator cmp zs" and "a \<in> set zs" and "b \<in> set zs"
  shows "cmp a b \<noteq> NaN"
  using assms unfolding consistentComparator_def by blast

lemma insertSorted_sorted:
  assumes cons: "consistentComparator cmp zs" and x: "x \<in> set zs" and sub: "set ys \<subseteq> set zs"
    and srt: "sorted_wrt (\<lambda>a b. sortValue (cmp a b) \<le> 0) ys"
  shows "sorted_wrt (\<lambda>a b. sortValue (cmp a b) \<le> 0) (insertSorted cmp x ys)"
  using sub srt
proof (induction ys)
  case Nil
  then show ?case by simp
next
  case (Cons y ys)
  have y: "y \<in> set zs" using Cons.prems(1) by simp
  show ?case
  proof (cases "sortValue (cmp x y) \<le> 0")
    case True
    have "\<forall>z\<in>set ys. sortValue (cmp x z) \<le> 0"
    proof
      fix z assume z: "z \<in> set ys"
      then have "sortValue (cmp y z) \<le> 0" using Cons.prems(2) by simp
      moreover have "z \<in> set zs" using z Cons.prems(1) by auto
      ultimately show "sortValue (cmp x z) \<le> 0"
        using consistent_trans [OF cons x y _ True] by blast
    qed
    then show ?thesis using True Cons.prems(2) by simp
  next
    case False
    then have "sortValue (cmp y x) \<le> 0" using consistent_total [OF cons x y] by blast
    moreover have "sorted_wrt (\<lambda>a b. sortValue (cmp a b) \<le> 0) (insertSorted cmp x ys)"
      using Cons by simp
    ultimately show ?thesis using False Cons.prems(2) by (simp add: set_insertSorted)
  qed
qed

lemma arraySort_sorted_on:
  assumes "consistentComparator cmp zs" and "set xs \<subseteq> set zs"
  shows "sorted_wrt (\<lambda>a b. sortValue (cmp a b) \<le> 0) (arraySort cmp xs)"
  using assms(2)
proof (induction xs)
  case Nil
  then show ?case by simp
next
  case (Cons x xs)
  have "sorted_wrt (\<lambda>a b. sortValue (cmp a b) \<le> 0) (arraySort cmp xs)"
    using Cons by simp
  moreover have "x \<in> set zs" "set (arraySort cmp xs) \<subseteq> set zs"
    using Cons.prems by (simp_all add: set_arraySort)
  ultimately show ?case using insertSorted_sorted [OF assms(1)] by simp
qed

lemma arraySort_sorted:
  "consistentComparator cmp xs \<Longrightarrow>
   sorted_wrt (\<lambda>a b. sortValue (cmp a b) \<le> 0) (arraySort cmp xs)"
  using arraySort_sorted_on [of cmp xs xs] by simp

lemma filter_insertSorted:
  assumes le: "\<And>a b. a \<in> S \<Longrightarrow> b \<in> S \<Longrightarrow> P a \<Longrightarrow> P b \<Longrightarrow> sortValue (cmp a b) \<le> 0"
    and x: "x \<in> S" and sub: "set ys \<subseteq> S"
  shows "filter P (insertSorted cmp x ys) = (if P x then x # filter P ys else filter P ys)"
  using sub
proof (induction ys)
  case Nil
  then show ?case by simp
next
  case (Cons y ys)
  have y: "y \<in> S" using Cons.prems by simp
  have ih: "filter P (insertSorted cmp x ys) = (if P x then x # filter P ys else filter P ys)"
    using Cons by simp
  show ?case
  proof (cases "sortValue (cmp x y) \<le> 0")
    case True
    then show ?thesis by simp
  next
    case False
    then have "\<not> (P x \<and> P y)" using le [OF x y] by blast
    then show ?thesis using False ih by auto
  qed
qed

lemma filter_arraySort:
  assumes le: "\<And>a b. a \<in> S \<Longrightarrow> b \<in> S \<Longrightarrow> P a \<Longrightarrow> P b \<Longrightarrow> sortValue (cmp a b) \<le> 0"
    and sub: "set xs \<subseteq> S"
  shows "filter P (arraySort cmp xs) = filter P xs"
  using sub
proof (induction xs)
  case Nil
  then show ?case by simp
next
  case (Cons x xs)
  have "x \<in> S" "set (arraySort cmp xs) \<subseteq> S" using Cons.prems by (simp_all add: set_arraySort)
  then have "filter P (insertSorted cmp x (arraySort cmp xs)) =
      (if P x then x # filter P (arraySort cmp xs) else filter P (arraySort cmp xs))"
    using filter_insertSorted [of S P cmp x "arraySort cmp xs"] le by blast
  then show ?case using Cons by simp
qed

lemma compareFiles_folder_doc:
  "pf_isFolder a \<Longrightarrow> \<not> pf_isFolder b \<Longrightarrow> sortValue (compareFiles lc opt a b) = - 1"
  by (simp add: compareFiles_def sortValue_def)

lemma compareFiles_doc_folder:
  "\<not> pf_isFolder a \<Longrightarrow> pf_isFolder b \<Longrightarrow> sortValue (compareFiles lc opt a b) = 1"
  by (simp add: compareFiles_def sortValue_def)

lemma compareFiles_same_key:
  assumes "sameKey opt a b"
  shows "compareFiles lc opt a b = compareFiles lc opt a a"
  using assms by (cases opt) (auto simp: sameKey_def compareFiles_def)

lemma sameKey_compare:
  assumes cons: "consistentComparator (compareFiles lc opt) xs"
    and a: "a \<in> set xs" and ea: "sameKey opt e a" and eb: "sameKey opt e b"
  shows "sortValue (compareFiles lc opt a b) \<le> 0"
proof -
  have "sameKey opt a b" using ea eb by (cases opt) (auto simp: sameKey_def)
  then have "compareFiles lc opt a b = compareFiles lc opt a a"
    by (rule compareFiles_same_key)
  then show ?thesis using consistent_refl [OF cons a] by simp
qed

lemma sorted_date_asc:
  assumes "compareFiles lc date_asc a b \<noteq> NaN" and "sortValue (compareFiles lc date_asc a b) \<le> 0"
    and "pf_isFolder a = pf_isFolder b"
  shows "timeLE (pf_modifiedTime a) (pf_modifiedTime b)"
  using assms
  by (cases "pf_modifiedTime a"; cases "pf_modifiedTime b")
     (auto simp: compareFiles_def jsSub_def sortValue_def timeLE_def)

lemma sorted_date_desc:
  assumes "compareFiles lc date_desc a b \<noteq> NaN" and "sortValue (compareFiles lc date_desc a b) \<le> 0"
    and "pf_isFolder a = pf_isFolder b"
  shows "timeLE (pf_modifiedTime b) (pf_modifiedTime a)"
  using assms
  by (cases "pf_modifiedTime a"; cases "pf_modifiedTime b")
     (auto simp: compareFiles_def jsSub_def sortValue_def timeLE_def)

text \<open>
  C4, as the code has it. When the comparator is consistent on the filtered entries (under
  a date option: every modification time is valid; under a name option: the collation is a
  consistent ordering), the entries that agree with a given entry on the folder flag and on
  the sorted field (the name under the name options, the modification time under the date
  options) appear in the output in their input order; the output is ordered by the
  comparator, and under a date option entries with the same folder flag stand in ascending
  (\<open>date_asc\<close>) or descending (\<open>date_desc\<close>) order of modification time.
\<close>

theorem equal_keys_keep_order:
  assumes "consistentComparator (compareFiles lc opt) (filter (matchesSearch P searchTerm) files)"
  shows "filter (sameKey opt e) (filteredAndSortedFiles P lc files searchTerm opt) =
           filter (sameKey opt e) (filter (matchesSearch P searchTerm) files) \<and>
         sorted_wrt (\<lambda>a b. sortValue (compareFiles lc opt a b) \<le> 0)
           (filteredAndSortedFiles P lc files searchTerm opt) \<and>
         (\<forall>i j. i < j \<and> j < length (filteredAndSortedFiles P lc files searchTerm opt) \<and>
             pf_isFolder (filteredAndSortedFiles P lc files searchTerm opt ! i) =
             pf_isFolder (filteredAndSortedFiles P lc files searchTerm opt ! j) \<longrightarrow>
             (opt = date_asc \<longrightarrow>
                timeLE (pf_modifiedTime (filteredAndSortedFiles P lc files searchTerm opt ! i))
                       (pf_modifiedTime (filteredAndSortedFiles P lc files searchTerm opt ! j))) \<and>
             (opt = date_desc \<longrightarrow>
                timeLE (pf_modifiedTime (filteredAndSortedFiles P lc files searchTerm opt ! j))
                       (pf_modifiedTime (filteredAndSortedFiles P lc files searchTerm opt ! i))))"
proof -
  define xs where "xs = filter (matchesSearch P searchTerm) files"
  define r where "r = filteredAndSortedFiles P lc files searchTerm opt"
  have r: "r = arraySort (compareFiles lc opt) xs"
    by (simp add: r_def xs_def filteredAndSortedFiles_def sortFiles_def)
  have cons: "consistentComparator (compareFiles lc opt) xs"
    using assms by (simp add: xs_def)
  have stable: "filter (sameKey opt e) r = filter (sameKey opt e) xs"
    unfolding r
  proof (rule filter_arraySort [where S = "set xs"])
    fix a b
    assume "a \<in> set xs" "b \<in> set xs" "sameKey opt e a" "sameKey opt e b"
    then show "sortValue (compareFiles lc opt a b) \<le> 0"
      using sameKey_compare [OF cons] by blast
  qed simp
  have srt: "sorted_wrt (\<lambda>a b. sortValue (compareFiles lc opt a b) \<le> 0) r"
    unfolding r using cons by (rule arraySort_sorted)
  have setr: "set r = set xs" by (simp add: r set_arraySort)
  have dates: "(opt = date_asc \<longrightarrow> timeLE (pf_modifiedTime (r ! i)) (pf_modifiedTime (r ! j))) \<and>
      (opt = date_desc \<longrightarrow> timeLE (pf_modifiedTime (r ! j)) (pf_modifiedTime (r ! i)))"
    if ij: "i < j" "j < length r" and fl: "pf_isFolder (r ! i) = pf_isFolder (r ! j)" for i j
  proof -
    have le: "sortValue (compareFiles lc opt (r ! i) (r ! j)) \<le> 0"
      using srt ij by (simp add: sorted_wrt_iff_nth_less)
    have "r ! i \<in> set xs" "r ! j \<in> set xs" using ij setr nth_mem [of i r] nth_mem [of j r] by auto
    then have nn: "compareFiles lc opt (r ! i) (r ! j) \<noteq> NaN"
      using consistent_number [OF cons] by blast
    show ?thesis using le nn fl sorted_date_asc sorted_date_desc by blast
  qed
  show ?thesis using stable srt dates unfolding r_def xs_def by blast
qed

lemma includesStr_Nil: "includesStr s []"
  by (cases s) simp_all

lemma matchesSearch_empty: "matchesSearch P [] e"
  by (simp add: matchesSearch_def toLowerCase_def includesStr_Nil)

lemma filter_empty_term: "filter (matchesSearch P []) files = files"
  by (simp add: matchesSearch_empty)

lemmas srt = filteredAndSortedFiles_def sortFiles_def matchesSearch_empty compareFiles_def
  sortValue_def jsSub_def sampleEntry_def units_def

lemma compare_dates_asc:
  assumes "pf_modifiedTime a = Num ta" and "pf_modifiedTime b = Num tb"
  shows "compareFiles lc date_asc a b =
     Num (if pf_isFolder a \<and> \<not> pf_isFolder b then - 1
          else if \<not> pf_isFolder a \<and> pf_isFolder b then 1 else ta - tb)"
  using assms by (simp add: compareFiles_def jsSub_def)

lemma compare_dates_desc:
  assumes "pf_modifiedTime a = Num ta" and "pf_modifiedTime b = Num tb"
  shows "compareFiles lc date_desc a b =
     Num (if pf_isFolder a \<and> \<not> pf_isFolder b then - 1
          else if \<not> pf_isFolder a \<and> pf_isFolder b then 1 else tb - ta)"
  using assms by (simp add: compareFiles_def jsSub_def)

lemma sortValue_Num: "sortValue (Num n) = n"
  by (simp add: sortValue_def)

lemma valid_dates_consistent:
  assumes "list_all (\<lambda>e. pf_modifiedTime e \<noteq> NaN) xs" and "opt = date_asc \<or> opt = date_desc"
  shows "consistentComparator (compareFiles lc opt) xs"
proof -
  have num: "\<exists>t. pf_modifiedTime a = Num t" if "a \<in> set xs" for a
  proof -
    have "pf_modifiedTime a \<noteq> NaN" using that assms(1) by (simp add: list_all_iff)
    then show ?thesis by (cases "pf_modifiedTime a") simp_all
  qed
  show ?thesis
    unfolding consistentComparator_def
  proof (intro ballI)
    fix a b c assume mem: "a \<in> set xs" "b \<in> set xs" "c \<in> set xs"
    obtain ta where ta: "pf_modifiedTime a = Num ta" using num [OF mem(1)] ..
    obtain tb where tb: "pf_modifiedTime b = Num tb" using num [OF mem(2)] ..
    obtain tc where tc: "pf_modifiedTime c = Num tc" using num [OF mem(3)] ..
    note t = ta tb tc
    show "compareFiles lc opt a b \<noteq> NaN \<and>
        sortValue (compareFiles lc opt a a) = 0 \<and>
        (sortValue (compareFiles lc opt a b) < 0 \<longleftrightarrow> 0 < sortValue (compareFiles lc opt b a)) \<and>
        (sortValue (compareFiles lc opt a b) \<le> 0 \<and> sortValue (compareFiles lc opt b c) \<le> 0 \<longrightarrow>
           sortValue (compareFiles lc opt a c) \<le> 0)"
    proof (cases "opt = date_asc")
      case True
      show ?thesis
        unfolding True compare_dates_asc [OF t(1) t(2)] compare_dates_asc [OF t(1) t(1)]
          compare_dates_asc [OF t(2) t(1)] compare_dates_asc [OF t(2) t(3)]
          compare_dates_asc [OF t(1) t(3)] sortValue_Num
        by (cases "pf_isFolder a"; cases "pf_isFolder b"; cases "pf_isFolder c") simp_all
    next
      case False
      then have d: "opt = date_desc" using assms(2) by blast
      show ?thesis
        unfolding d compare_dates_desc [OF t(1) t(2)] compare_dates_desc [OF t(1) t(1)]
          compare_dates_desc [OF t(2) t(1)] compare_dates_desc [OF t(2) t(3)]
          compare_dates_desc [OF t(1) t(3)] sortValue_Num
        by (cases "pf_isFolder a"; cases "pf_isFolder b"; cases "pf_isFolder c") simp_all
    qed
  qed
qed

lemma consistent_collation:
  assumes "\<And>s. lc s s = 0" and "\<And>s t. lc s t < 0 \<longleftrightarrow> 0 < lc t s"
    and "\<And>s t u. lc s t \<le> 0 \<Longrightarrow> lc t u \<le> 0 \<Longrightarrow> lc s u \<le> 0"
    and "opt = name_asc \<or> opt = name_desc"
  shows "consistentComparator (compareFiles lc opt) xs"
  unfolding consistentComparator_def
proof (intro ballI)
  fix a b c assume "a \<in> set xs" "b \<in> set xs" "c \<in> set xs"
  have tr: "lc (pf_name a) (pf_name b) \<le> 0 \<Longrightarrow> lc (pf_name b) (pf_name c) \<le> 0 \<Longrightarrow>
      lc (pf_name a) (pf_name c) \<le> 0"
    using assms(3) by blast
  have tr': "lc (pf_name c) (pf_name b) \<le> 0 \<Longrightarrow> lc (pf_name b) (pf_name a) \<le> 0 \<Longrightarrow>
      lc (pf_name c) (pf_name a) \<le> 0"
    using assms(3) by blast
  have an: "lc (pf_name a) (pf_name b) < 0 \<longleftrightarrow> 0 < lc (pf_name b) (pf_name a)"
    "lc (pf_name b) (pf_name a) < 0 \<longleftrightarrow> 0 < lc (pf_name a) (pf_name b)"
    using assms(2) by blast+
  show "compareFiles lc opt a b \<noteq> NaN \<and>
        sortValue (compareFiles lc opt a a) = 0 \<and>
        (sortValue (compareFiles lc opt a b) < 0 \<longleftrightarrow> 0 < sortValue (compareFiles lc opt b a)) \<and>
        (sortValue (compareFiles lc opt a b) \<le> 0 \<and> sortValue (compareFiles lc opt b c) \<le> 0 \<longrightarrow>
           sortValue (compareFiles lc opt a c) \<le> 0)"
    using assms(1,4) tr tr' an
    by (cases "pf_isFolder a"; cases "pf_isFolder b"; cases "pf_isFolder c")
       (auto simp: compareFiles_def sortValue_def)
qed

lemma sample_dates_valid:
  "list_all (\<lambda>e. pf_modifiedTime e \<noteq> NaN)
     [sampleEntry ''a.pdf'' False 2, sampleEntry ''b.pdf'' False 1, sampleEntry ''c.pdf'' False 2]"
  by (simp add: sampleEntry_def)

theorem equal_keys_keep_order_witness:
  "consistentComparator (compareFiles codeUnitCompare date_asc)
     (filter (matchesSearch noPlatformLower [])
        [sampleEntry ''a.pdf'' False 2, sampleEntry ''b.pdf'' False 1,
         sampleEntry ''c.pdf'' False 2]) \<and>
   filteredAndSortedFiles noPlatformLower codeUnitCompare
     [sampleEntry ''a.pdf'' False 2, sampleEntry ''b.pdf'' False 1, sampleEntry ''c.pdf'' False 2]
     [] date_asc =
     [sampleEntry ''b.pdf'' False 1, sampleEntry ''a.pdf'' False 2, sampleEntry ''c.pdf'' False 2] \<and>
   filter (sameKey date_asc (sampleEntry ''a.pdf'' False 2))
     (filteredAndSortedFiles noPlatformLower codeUnitCompare
        [sampleEntry ''a.pdf'' False 2, sampleEntry ''b.pdf'' False 1,
         sampleEntry ''c.pdf'' False 2] [] date_asc) =
     [sampleEntry ''a.pdf'' False 2, sampleEntry ''c.pdf'' False 2]"
proof -
  have f: "filter (matchesSearch noPlatformLower [])
        [sampleEntry ''a.pdf'' False 2, sampleEntry ''b.pdf'' False 1,
         sampleEntry ''c.pdf'' False 2] =
      [sampleEntry ''a.pdf'' False 2, sampleEntry ''b.pdf'' False 1, sampleEntry ''c.pdf'' False 2]"
    by (rule filter_empty_term)
  have c: "consistentComparator (compareFiles codeUnitCompare date_asc)
     (filter (matchesSearch noPlatformLower [])
        [sampleEntry ''a.pdf'' False 2, sampleEntry ''b.pdf'' False 1,
         sampleEntry ''c.pdf'' False 2])"
    unfolding f using sample_dates_valid by (rule valid_dates_consistent) simp
  have v: "filteredAndSortedFiles noPlatformLower codeUnitCompare
     [sampleEntry ''a.pdf'' False 2, sampleEntry ''b.pdf'' False 1, sampleEntry ''c.pdf'' False 2]
     [] date_asc =
     [sampleEntry ''b.pdf'' False 1, sampleEntry ''a.pdf'' False 2, sampleEntry ''c.pdf'' False 2]"
    by (simp add: srt)
  have s: "filter (sameKey date_asc (sampleEntry ''a.pdf'' False 2))
      [sampleEntry ''a.pdf'' False 2, sampleEntry ''b.pdf'' False 1, sampleEntry ''c.pdf'' False 2] =
      [sampleEntry ''a.pdf'' False 2, sampleEntry ''c.pdf'' False 2]"
    by (simp add: sameKey_def sampleEntry_def)
  show ?thesis
    using equal_keys_keep_order [OF c, of "sampleEntry ''a.pdf'' False 2"] c v s
    unfolding f by simp
qed

text \<open>
  C4 as stated fails under the date options: two documents with the same name and different
  valid modification times are put in date order, here the reverse of their input order.
\<close>

theorem equal_names_reordered_by_date:
  "filteredAndSortedFiles noPlatformLower codeUnitCompare
     [sampleEntry ''a.pdf'' False 1, sampleEntry ''a.pdf'' False 2] [] date_desc =
     [sampleEntry ''a.pdf'' False 2, sampleEntry ''a.pdf'' False 1] \<and>
   pf_name (sampleEntry ''a.pdf'' False 1) = pf_name (sampleEntry ''a.pdf'' False 2) \<and>
   pf_isFolder (sampleEntry ''a.pdf'' False 1) = pf_isFolder (sampleEntry ''a.pdf'' False 2) \<and>
   sampleEntry ''a.pdf'' False 1 \<noteq> sampleEntry ''a.pdf'' False 2"
  by (simp add: srt)

lemma insertSorted_folders_first:
  assumes "sorted_wrt (\<lambda>a b. pf_isFolder b \<longrightarrow> pf_isFolder a) ys"
  shows "sorted_wrt (\<lambda>a b. pf_isFolder b \<longrightarrow> pf_isFolder a)
           (insertSorted (compareFiles lc opt) x ys)"
  using assms
proof (induction ys)
  case Nil
  then show ?case by simp
next
  case (Cons y ys)
  show ?case
  proof (cases "sortValue (compareFiles lc opt x y) \<le> 0")
    case True
    have xy: "pf_isFolder y \<longrightarrow> pf_isFolder x"
      using True compareFiles_doc_folder [of x y lc opt] by auto
    have "\<forall>z\<in>set ys. pf_isFolder z \<longrightarrow> pf_isFolder x"
      using Cons.prems xy by auto
    then show ?thesis using True xy Cons.prems by simp
  next
    case False
    have yx: "pf_isFolder x \<longrightarrow> pf_isFolder y"
      using False compareFiles_folder_doc [of x y lc opt] by auto
    then show ?thesis using False Cons by (simp add: set_insertSorted)
  qed
qed

lemma arraySort_folders_first:
  "sorted_wrt (\<lambda>a b. pf_isFolder b \<longrightarrow> pf_isFolder a) (arraySort (compareFiles lc opt) xs)"
  by (induction xs) (simp_all add: insertSorted_folders_first)

text \<open>
  C1. In the filtered and sorted list no entry that is not a folder stands before a folder:
  whenever a later position holds a folder, every earlier position holds a folder too. This
  holds for every list of entries, every search term, every sort option and every
  collation.
\<close>

theorem folders_before_documents:
  assumes "i < j" and "j < length (filteredAndSortedFiles P lc files searchTerm opt)"
    and "pf_isFolder (filteredAndSortedFiles P lc files searchTerm opt ! j)"
  shows "pf_isFolder (filteredAndSortedFiles P lc files searchTerm opt ! i)"
  using assms arraySort_folders_first [of lc opt "filter (matchesSearch P searchTerm) files"]
  unfolding filteredAndSortedFiles_def sortFiles_def
  by (simp add: sorted_wrt_iff_nth_less)

theorem folders_before_documents_witness:
  "(0::nat) < 1 \<and>
   1 < length (filteredAndSortedFiles noPlatformLower codeUnitCompare
         [sampleEntry ''b.pdf'' False 30, sampleEntry ''zeta'' True 10,
          sampleEntry ''alpha'' True 20] [] name_desc) \<and>
   pf_isFolder (filteredAndSortedFiles noPlatformLower codeUnitCompare
         [sampleEntry ''b.pdf'' False 30, sampleEntry ''zeta'' True 10,
          sampleEntry ''alpha'' True 20] [] name_desc ! 1) \<and>
   pf_isFolder (filteredAndSortedFiles noPlatformLower codeUnitCompare
         [sampleEntry ''b.pdf'' False 30, sampleEntry ''zeta'' True 10,
          sampleEntry ''alpha'' True 20] [] name_desc ! 0)"
  using folders_before_documents [of 0 1 noPlatformLower codeUnitCompare
      "[sampleEntry ''b.pdf'' False 30, sampleEntry ''zeta'' True 10,
        sampleEntry ''alpha'' True 20]" "[]" name_desc]
  by (simp add: srt)

lemma consistent_equal_sym:
  assumes "consistentComparator cmp zs" and "a \<in> set zs" and "b \<in> set zs"
    and "sortValue (cmp a b) = 0"
  shows "sortValue (cmp b a) = 0"
proof -
  have "sortValue (cmp a b) < 0 \<longleftrightarrow> 0 < sortValue (cmp b a)"
    "sortValue (cmp b a) < 0 \<longleftrightarrow> 0 < sortValue (cmp a b)"
    using assms(1-3) unfolding consistentComparator_def by blast+
  then show ?thesis using assms(4) by linarith
qed

lemma consistent_equal_le:
  assumes cons: "consistentComparator cmp zs" and e: "e \<in> set zs" and a: "a \<in> set zs"
    and b: "b \<in> set zs" and ea: "sortValue (cmp e a) = 0" and eb: "sortValue (cmp e b) = 0"
  shows "sortValue (cmp a b) \<le> 0"
proof -
  have "sortValue (cmp a e) \<le> 0" using consistent_equal_sym [OF cons e a ea] by simp
  moreover have "sortValue (cmp e b) \<le> 0" using eb by simp
  ultimately show ?thesis using consistent_trans [OF cons a e b] by blast
qed

lemma arraySort_stable:
  assumes cons: "consistentComparator cmp xs" and e: "e \<in> set xs"
  shows "filter (\<lambda>a. sortValue (cmp e a) = 0) (arraySort cmp xs) =
         filter (\<lambda>a. sortValue (cmp e a) = 0) xs"
proof (rule filter_arraySort [where S = "set xs"])
  fix a b
  assume "a \<in> set xs" "b \<in> set xs" "sortValue (cmp e a) = 0" "sortValue (cmp e b) = 0"
  then show "sortValue (cmp a b) \<le> 0" using consistent_equal_le [OF cons e] by blast
qed simp

lemma sorted_stable_unique:
  assumes cons: "consistentComparator cmp S"
    and sub: "set ys \<subseteq> set S"
    and perm: "mset ys = mset zs"
    and sy: "sorted_wrt (\<lambda>a b. sortValue (cmp a b) \<le> 0) ys"
    and sz: "sorted_wrt (\<lambda>a b. sortValue (cmp a b) \<le> 0) zs"
    and st: "\<forall>e\<in>set S. filter (\<lambda>a. sortValue (cmp e a) = 0) ys =
                       filter (\<lambda>a. sortValue (cmp e a) = 0) zs"
  shows "ys = zs"
  using sub perm sy sz st
proof (induction ys arbitrary: zs)
  case Nil
  then show ?case by simp
next
  case (Cons y ys)
  from Cons.prems(2) have "zs \<noteq> []" by auto
  then obtain z zs' where zs: "zs = z # zs'" by (cases zs) auto
  have yS: "y \<in> set S" using Cons.prems(1) by simp
  have sets: "set (y # ys) = set zs" using Cons.prems(2) by (rule mset_eq_setD)
  then have zS: "z \<in> set S" using Cons.prems(1) zs by auto
  have yz: "sortValue (cmp y z) \<le> 0"
  proof (cases "z = y")
    case True
    then show ?thesis using consistent_refl [OF cons yS] by simp
  next
    case False
    then have "z \<in> set ys" using sets zs by auto
    then show ?thesis using Cons.prems(3) by simp
  qed
  have zy: "sortValue (cmp z y) \<le> 0"
  proof (cases "y = z")
    case True
    then show ?thesis using consistent_refl [OF cons yS] by simp
  next
    case False
    then have "y \<in> set zs'" using sets zs by auto
    then show ?thesis using Cons.prems(4) zs by simp
  qed
  have "sortValue (cmp y z) < 0 \<longleftrightarrow> 0 < sortValue (cmp z y)"
    using cons yS zS unfolding consistentComparator_def by blast
  then have e0: "sortValue (cmp y z) = 0" using yz zy by linarith
  have r0: "sortValue (cmp y y) = 0" using consistent_refl [OF cons yS] by simp
  have "filter (\<lambda>a. sortValue (cmp y a) = 0) (y # ys) =
        filter (\<lambda>a. sortValue (cmp y a) = 0) (z # zs')"
    using Cons.prems(5) yS zs by blast
  then have eq: "y = z" using e0 r0 by simp
  have "ys = zs'"
  proof (rule Cons.IH)
    show "set ys \<subseteq> set S" using Cons.prems(1) by simp
    show "mset ys = mset zs'" using Cons.prems(2) zs eq by simp
    show "sorted_wrt (\<lambda>a b. sortValue (cmp a b) \<le> 0) ys" using Cons.prems(3) by simp
    show "sorted_wrt (\<lambda>a b. sortValue (cmp a b) \<le> 0) zs'" using Cons.prems(4) zs by simp
    show "\<forall>e\<in>set S. filter (\<lambda>a. sortValue (cmp e a) = 0) ys =
                       filter (\<lambda>a. sortValue (cmp e a) = 0) zs'"
    proof
      fix e assume "e \<in> set S"
      then have "filter (\<lambda>a. sortValue (cmp e a) = 0) (y # ys) =
          filter (\<lambda>a. sortValue (cmp e a) = 0) (y # zs')"
        using Cons.prems(5) zs eq by blast
      then show "filter (\<lambda>a. sortValue (cmp e a) = 0) ys =
          filter (\<lambda>a. sortValue (cmp e a) = 0) zs'"
        by (cases "sortValue (cmp e y) = 0") simp_all
    qed
  qed
  then show ?case using zs eq by simp
qed

text \<open>
  For a consistent comparator the model is the sort: a list that is a rearrangement of the
  input, ordered by the comparator and with equal elements in their input order, is the
  list the model returns.
\<close>

lemma arraySort_is_the_stable_sort:
  assumes cons: "consistentComparator cmp xs"
    and perm: "mset ys = mset xs"
    and srt: "sorted_wrt (\<lambda>a b. sortValue (cmp a b) \<le> 0) ys"
    and st: "\<forall>e\<in>set xs. filter (\<lambda>a. sortValue (cmp e a) = 0) ys =
                        filter (\<lambda>a. sortValue (cmp e a) = 0) xs"
  shows "ys = arraySort cmp xs"
proof (rule sorted_stable_unique [OF cons])
  show "set ys \<subseteq> set xs" using mset_eq_setD [OF perm] by simp
  show "mset ys = mset (arraySort cmp xs)" using perm by (simp add: mset_arraySort)
  show "sorted_wrt (\<lambda>a b. sortValue (cmp a b) \<le> 0) ys" by (rule srt)
  show "sorted_wrt (\<lambda>a b. sortValue (cmp a b) \<le> 0) (arraySort cmp xs)"
    using cons by (rule arraySort_sorted)
  show "\<forall>e\<in>set xs. filter (\<lambda>a. sortValue (cmp e a) = 0) ys =
                       filter (\<lambda>a. sortValue (cmp e a) = 0) (arraySort cmp xs)"
    using st arraySort_stable [OF cons] by simp
qed








lemmas low = matchesSearch_def toLowerCase_def lowerUnit_def units_def sampleEntry_def
  namedEntry_def


lemma capital_O_umlaut_found:
  "filteredAndSortedFiles noPlatformLower codeUnitCompare
     [namedEntry [0xD6, 0x5A, 0x45, 0x4C, 0x2E, 0x70, 0x64, 0x66]] [0xF6, 0x7A, 0x65, 0x6C]
     name_asc =
   [namedEntry [0xD6, 0x5A, 0x45, 0x4C, 0x2E, 0x70, 0x64, 0x66]]"
  by (simp add: filteredAndSortedFiles_def sortFiles_def low)


end
